theory Spec2Isabelle
  imports Main "HOL-Library.Word" "HOL-Library.Sublist"
begin

unbundle bit_operations_syntax

section \<open>The float FIFO shared by the loopback programs\<close>

text \<open>
  Every platform file declares the same \<^verbatim>\<open>struct FloatFIFO\<close>: a vector \<^verbatim>\<open>buf\<close>,
  two \<^verbatim>\<open>std::atomic<uint32_t>\<close> indices \<^verbatim>\<open>w\<close> and \<^verbatim>\<open>r\<close>, and \<^verbatim>\<open>uint32_t mask\<close>.
  The embedding follows the variant whose \<^verbatim>\<open>push\<close> and \<^verbatim>\<open>pop\<close> return the frame
  count (the VoiceProcessingIO desktop program); the other variants compute the same
  values and return \<^verbatim>\<open>void\<close>. Samples are copied and zeroed but never computed
  with, so the sample type is any type with a zero (the silence sample \<^verbatim>\<open>0.0f\<close>).
  Calls are atomic here: a call runs to its end before the next one starts.
  The field \<^verbatim>\<open>mask\<close> is named \<open>mask_f\<close>, since \<open>mask\<close> is a constant of the word library.
\<close>

type_synonym uint32_t = "32 word"

record 'a FloatFIFO =
  buf :: "'a list"
  w :: uint32_t
  r :: uint32_t
  mask_f :: uint32_t

text \<open>
  The constructor's loop \<^verbatim>\<open>uint32_t sz = 1; while (sz < framesPow2) sz <<= 1;\<close>.
  Above \<open>2 ^ 31\<close> the shift wraps to 0 and the loop never ends: not returning is \<open>None\<close>.
\<close>

partial_function (option) ctor_loop :: "uint32_t \<Rightarrow> uint32_t \<Rightarrow> uint32_t option" where
  "ctor_loop sz framesPow2 =
     (if sz < framesPow2 then ctor_loop (push_bit 1 sz) framesPow2 else Some sz)"

text \<open>\<^verbatim>\<open>buf.resize(sz)\<close> value-initialises the samples; \<^verbatim>\<open>w{0}, r{0}\<close>; \<^verbatim>\<open>mask = sz - 1\<close>.\<close>

definition new_FloatFIFO :: "uint32_t \<Rightarrow> ('a::zero) FloatFIFO option" where
  "new_FloatFIFO framesPow2 =
     (case ctor_loop 1 framesPow2 of
        None \<Rightarrow> None
      | Some sz \<Rightarrow> Some \<lparr>buf = replicate (unat sz) 0, w = 0, r = 0, mask_f = sz - 1\<rparr>)"

text \<open>
  \<^verbatim>\<open>for (uint32_t i = 0; i < n; ++i) buf[(wi + i) & mask] = src[i];\<close>
  The source reads \<^verbatim>\<open>src\<close> through a raw pointer: the caller owes as many readable
  samples as the loop copies.
\<close>

function push_loop ::
  "'a list \<Rightarrow> uint32_t \<Rightarrow> uint32_t \<Rightarrow> 'a list \<Rightarrow> uint32_t \<Rightarrow> uint32_t \<Rightarrow> 'a list" where
  "push_loop b wi m src n i =
     (if i < n then push_loop (b[unat ((wi + i) AND m) := src ! unat i]) wi m src n (i + 1)
      else b)"
  by pat_completeness auto
termination
proof (relation "measure (\<lambda>(b, wi, m, src, n, i). unat n - unat i)")
  fix b :: "'a list" and wi m n i :: uint32_t and src :: "'a list"
  assume "i < n"
  then have "unat n - unat (i + 1) < unat n - unat i"
    by unat_arith
  then show "((b[unat ((wi + i) AND m) := src ! unat i], wi, m, src, n, i + 1), b, wi, m, src, n, i)
      \<in> measure (\<lambda>(b, wi, m, src, n, i). unat n - unat i)"
    by simp
qed simp

definition push :: "'a FloatFIFO \<Rightarrow> 'a list \<Rightarrow> uint32_t \<Rightarrow> 'a FloatFIFO \<times> uint32_t" where
  "push f src n =
     (let wi = w f;
          ri = r f;
          freeFrames = ((mask_f f + 1) - (wi - ri)) AND mask_f f;
          n = (if n > freeFrames then freeFrames else n);
          b = push_loop (buf f) wi (mask_f f) src n 0
      in (f\<lparr>buf := b, w := (wi + n) AND mask_f f\<rparr>, n))"

text \<open>\<^verbatim>\<open>for (uint32_t i = 0; i < got; ++i) dst[i] = buf[(ri + i) & mask];\<close>\<close>

function pop_loop ::
  "'a list \<Rightarrow> uint32_t \<Rightarrow> uint32_t \<Rightarrow> 'a list \<Rightarrow> uint32_t \<Rightarrow> uint32_t \<Rightarrow> 'a list" where
  "pop_loop b ri m dst got i =
     (if i < got then pop_loop b ri m (dst[unat i := b ! unat ((ri + i) AND m)]) got (i + 1)
      else dst)"
  by pat_completeness auto
termination
proof (relation "measure (\<lambda>(b, ri, m, dst, got, i). unat got - unat i)")
  fix b :: "'a list" and ri m got i :: uint32_t and dst :: "'a list"
  assume "i < got"
  then have "unat got - unat (i + 1) < unat got - unat i"
    by unat_arith
  then show "((b, ri, m, dst[unat i := b ! unat ((ri + i) AND m)], got, i + 1), b, ri, m, dst, got, i)
      \<in> measure (\<lambda>(b, ri, m, dst, got, i). unat got - unat i)"
    by simp
qed simp

text \<open>
  \<^verbatim>\<open>std::memset(dst + got, 0, (n - got) * sizeof(float))\<close>: the \<open>cnt\<close> samples from
  offset \<open>off\<close> become the all-zero-bytes float, which is \<^verbatim>\<open>0.0f\<close>. The caller owes
  \<open>off + cnt\<close> writable samples.
\<close>

definition memset_zero :: "('a::zero) list \<Rightarrow> nat \<Rightarrow> nat \<Rightarrow> 'a list" where
  "memset_zero dst off cnt = take off dst @ replicate cnt 0 @ drop (off + cnt) dst"

definition pop ::
  "('a::zero) FloatFIFO \<Rightarrow> 'a list \<Rightarrow> uint32_t \<Rightarrow> 'a FloatFIFO \<times> 'a list \<times> uint32_t" where
  "pop f dst n =
     (let wi = w f;
          ri = r f;
          avail = (wi - ri) AND mask_f f;
          got = (if n \<le> avail then n else avail);
          dst = pop_loop (buf f) ri (mask_f f) dst got 0;
          f = f\<lparr>r := (ri + got) AND mask_f f\<rparr>;
          dst = (if got < n then memset_zero dst (unat got) (unat (n - got)) else dst)
      in (f, dst, got))"

section \<open>Sequences of callbacks\<close>

text \<open>
  The programs reach the FIFO through two callbacks only: \<^verbatim>\<open>InputCallback\<close> hands the
  captured frames to \<^verbatim>\<open>gFifo.push\<close>, \<^verbatim>\<open>RenderCallback\<close> asks \<^verbatim>\<open>gFifo.pop\<close> for the
  frames to play. A session records, beside the FIFO, the frames the pushes accepted so
  far (the first \<open>k\<close> samples of each source, \<open>k\<close> the count \<^verbatim>\<open>push\<close> returned: the ones
  its loop copied) and the real frames the pops returned so far (the first \<open>got\<close> samples
  of each destination: the ones before the silence).
\<close>

datatype 'a callback = InputCallback "'a list" uint32_t | RenderCallback "'a list" uint32_t

record 'a session =
  fifo :: "'a FloatFIFO"
  accepted :: "'a list"
  returned :: "'a list"

fun callback_step :: "('a::zero) session \<Rightarrow> 'a callback \<Rightarrow> 'a session" where
  "callback_step s (InputCallback src n) =
     (case push (fifo s) src n of
        (f, k) \<Rightarrow> s\<lparr>fifo := f, accepted := accepted s @ take (unat k) src\<rparr>)"
| "callback_step s (RenderCallback dst n) =
     (case pop (fifo s) dst n of
        (f, out, got) \<Rightarrow> s\<lparr>fifo := f, returned := returned s @ take (unat got) out\<rparr>)"

text \<open>A run starts from a FIFO with nothing accepted and nothing returned.\<close>

definition run :: "('a::zero) FloatFIFO \<Rightarrow> 'a callback list \<Rightarrow> 'a session" where
  "run f0 cs = foldl callback_step \<lparr>fifo = f0, accepted = [], returned = []\<rparr> cs"

section \<open>Stopping the loopback\<close>

text \<open>
  The iOS program keeps the audio unit in the global \<^verbatim>\<open>gAudioUnit\<close> (\<open>None\<close> is
  \<^verbatim>\<open>nullptr\<close>). The calls it makes into the audio library are recorded in the order made;
  their results are discarded by the source, and the function returns \<^verbatim>\<open>void\<close>.
\<close>

type_synonym AudioUnit = nat

datatype au_call =
  AudioOutputUnitStop AudioUnit
| AudioUnitUninitialize AudioUnit
| AudioComponentInstanceDispose AudioUnit

record ios_loopback =
  gAudioUnit :: "AudioUnit option"
  au_calls :: "au_call list"

definition StopVoiceLoopback :: "ios_loopback \<Rightarrow> ios_loopback" where
  "StopVoiceLoopback s =
     (case gAudioUnit s of
        None \<Rightarrow> s
      | Some u \<Rightarrow>
          s\<lparr>au_calls := au_calls s @
               [AudioOutputUnitStop u, AudioUnitUninitialize u, AudioComponentInstanceDispose u],
            gAudioUnit := None\<rparr>)"

text \<open>
  The Android program: \<^verbatim>\<open>FullDuplex\<close> holds the two stream pointers (\<open>None\<close> is an empty
  \<^verbatim>\<open>shared_ptr\<close>). \<^verbatim>\<open>stop\<close> asks each stream it holds to stop, discards the results,
  returns \<^verbatim>\<open>void\<close> and assigns no field.
\<close>

type_synonym AudioStream = nat

datatype oboe_call = requestStart AudioStream | requestStop AudioStream

record FullDuplex =
  inputStream :: "AudioStream option"
  outputStream :: "AudioStream option"

definition stop :: "FullDuplex \<times> oboe_call list \<Rightarrow> FullDuplex \<times> oboe_call list" where
  "stop = (\<lambda>(d, calls).
     (let calls = (case inputStream d of None \<Rightarrow> calls | Some s \<Rightarrow> calls @ [requestStop s]);
          calls = (case outputStream d of None \<Rightarrow> calls | Some s \<Rightarrow> calls @ [requestStop s])
      in (d, calls)))"

section \<open>The constructor\<close>

text \<open>
  The loop doubles a power of two until it reaches the request and can only leave through
  a power of two; a request of 0 leaves at once with \<open>sz = 1\<close>.
\<close>

lemma unat_pow2: "k \<le> 31 \<Longrightarrow> unat ((2::uint32_t) ^ k) = 2 ^ k"
proof -
  assume k: "k \<le> 31"
  have "(2::uint32_t) ^ k = of_nat (2 ^ k)" by simp
  then have "unat ((2::uint32_t) ^ k) = 2 ^ k mod 2 ^ 32"
    by (simp only: unat_of_nat) simp
  moreover from k have "(2::nat) ^ k < 2 ^ 32"
    by (intro power_strict_increasing) simp_all
  ultimately show ?thesis by simp
qed

lemma pow2_and_pred: "(2::uint32_t) ^ k AND (2 ^ k - 1) = 0"
  by (simp add: take_bit_eq_0_iff flip: mask_eq_exp_minus_1 take_bit_eq_mask)

lemma push_bit_pow2: "push_bit 1 ((2::uint32_t) ^ k) = 2 ^ Suc k"
  by (simp add: push_bit_eq_mult)

lemma pow2_32_zero: "(2::uint32_t) ^ 32 = 0"
  by simp

lemma ctor_loop_pow2_aux:
  assumes run: "ctor_loop sz0 fp0 = Some q0"
  shows "(sz0 = 0 \<longrightarrow> fp0 = 0) \<and> ((\<exists>k\<le>31. sz0 = 2 ^ k) \<longrightarrow> (\<exists>k\<le>31. q0 = 2 ^ k))"
proof (rule ctor_loop.raw_induct
    [where P = "\<lambda>sz fp q. (sz = 0 \<longrightarrow> fp = (0::uint32_t)) \<and>
                  ((\<exists>k\<le>31. sz = (2::uint32_t) ^ k) \<longrightarrow> (\<exists>k\<le>31. q = (2::uint32_t) ^ k))", OF _ run])
  fix loop :: "uint32_t \<Rightarrow> uint32_t \<Rightarrow> uint32_t option" and sz fp q :: uint32_t
  assume ih: "\<And>a b y. loop a b = Some y \<Longrightarrow>
      (a = 0 \<longrightarrow> b = 0) \<and> ((\<exists>k\<le>31. a = 2 ^ k) \<longrightarrow> (\<exists>k\<le>31. y = 2 ^ k))"
    and body: "(if sz < fp then loop (push_bit 1 sz) fp else Some sz) = Some q"
  show "(sz = 0 \<longrightarrow> fp = 0) \<and> ((\<exists>k\<le>31. sz = 2 ^ k) \<longrightarrow> (\<exists>k\<le>31. q = 2 ^ k))"
  proof (cases "sz < fp")
    case False
    with body have "q = sz" by simp
    moreover from False have "sz = 0 \<longrightarrow> fp = 0" by (auto simp: word_gt_0)
    ultimately show ?thesis by simp
  next
    case True
    with body have rec: "loop (push_bit 1 sz) fp = Some q" by simp
    note step = ih[OF rec]
    from True have fpnz: "fp \<noteq> 0" by auto
    have a: "sz \<noteq> 0"
    proof
      assume "sz = 0"
      then have "push_bit 1 sz = 0" by simp
      with step fpnz show False by simp
    qed
    have b: "\<exists>k\<le>31. q = 2 ^ k" if "k \<le> 31" and sz: "sz = 2 ^ k" for k
    proof (cases "k = 31")
      case True
      then have "push_bit 1 sz = 0" using sz by (simp add: push_bit_eq_mult)
      with step fpnz show ?thesis by simp
    next
      case False
      with that have "Suc k \<le> 31" by simp
      moreover have "push_bit 1 sz = 2 ^ Suc k" using sz by (simp add: push_bit_eq_mult)
      ultimately show ?thesis using step by blast
    qed
    from a b show ?thesis by blast
  qed
qed

lemma ctor_loop_returns_aux:
  "k \<le> 31 \<Longrightarrow> 31 - k = d \<Longrightarrow> fp \<le> 2 ^ 31 \<Longrightarrow> \<exists>q. ctor_loop (2 ^ k) fp = Some q"
proof (induction d arbitrary: k)
  case 0
  then have "k = 31" by simp
  with 0 show ?case by (subst ctor_loop.simps) (auto simp: leD)
next
  case (Suc d)
  then have "Suc k \<le> 31" "31 - Suc k = d" by simp_all
  from Suc.IH[OF this Suc.prems(3)] obtain q where "ctor_loop (2 ^ Suc k) fp = Some q" ..
  then show ?case
    by (subst ctor_loop.simps) (simp add: push_bit_eq_mult mult.commute)
qed

lemma new_FloatFIFO_shape:
  assumes "new_FloatFIFO fp = Some f"
  shows "\<exists>k\<le>31. f = \<lparr>buf = replicate (2 ^ k) 0, w = 0, r = 0, mask_f = 2 ^ k - 1\<rparr>"
proof -
  from assms obtain sz where loop: "ctor_loop 1 fp = Some sz"
    and f: "f = \<lparr>buf = replicate (unat sz) 0, w = 0, r = 0, mask_f = sz - 1\<rparr>"
    by (auto simp: new_FloatFIFO_def split: option.splits)
  have "\<exists>k\<le>31. (1::uint32_t) = 2 ^ k" by (rule exI[of _ 0]) simp
  with ctor_loop_pow2_aux[OF loop] obtain k where k: "k \<le> 31" "sz = 2 ^ k" by blast
  from k have "unat sz = 2 ^ k" by (simp add: unat_pow2)
  with f k show ?thesis by auto
qed

lemma new_FloatFIFO_returns:
  assumes "fp \<le> 2 ^ 31"
  shows "\<exists>f. new_FloatFIFO fp = Some (f :: ('a::zero) FloatFIFO)"
proof -
  from ctor_loop_returns_aux[of 0 31 fp] assms obtain q where "ctor_loop 1 fp = Some q"
    by auto
  then show ?thesis by (simp add: new_FloatFIFO_def)
qed

text \<open>
  The constructor returns exactly for requests up to \<open>2 ^ 31\<close>: the size it leaves the
  loop with is at least the request, and no power of two below \<open>2 ^ 32\<close> is.
\<close>

lemma ctor_loop_covers_request:
  assumes run: "ctor_loop sz0 fp0 = Some q0"
  shows "fp0 \<le> q0"
proof (rule ctor_loop.raw_induct[where P = "\<lambda>sz fp q. fp \<le> (q::uint32_t)", OF _ run])
  fix loop :: "uint32_t \<Rightarrow> uint32_t \<Rightarrow> uint32_t option" and sz fp q :: uint32_t
  assume ih: "\<And>a b y. loop a b = Some y \<Longrightarrow> b \<le> y"
    and body: "(if sz < fp then loop (push_bit 1 sz) fp else Some sz) = Some q"
  show "fp \<le> q"
  proof (cases "sz < fp")
    case True
    with body have "loop (push_bit 1 sz) fp = Some q" by simp
    then show ?thesis by (rule ih)
  next
    case False
    with body have "q = sz" by simp
    with False show ?thesis by simp
  qed
qed

lemma new_FloatFIFO_never_returns:
  assumes big: "2 ^ 31 < fp"
  shows "new_FloatFIFO fp = (None :: ('a::zero) FloatFIFO option)"
proof (cases "ctor_loop 1 fp")
  case None
  then show ?thesis by (simp add: new_FloatFIFO_def)
next
  case (Some q)
  have "\<exists>k\<le>31. (1::uint32_t) = 2 ^ k" by (rule exI[of _ 0]) simp
  with ctor_loop_pow2_aux[OF Some] obtain k where k: "k \<le> 31" "q = 2 ^ k" by blast
  have "unat q = 2 ^ k" using k by (simp add: unat_pow2)
  also have "(2::nat) ^ k \<le> 2 ^ 31" using k(1) by (intro power_increasing) simp_all
  finally have "unat q \<le> unat ((2::uint32_t) ^ 31)" by simp
  then have "q \<le> 2 ^ 31" by (simp add: word_le_nat_alt)
  moreover from ctor_loop_covers_request[OF Some] have "fp \<le> q" .
  ultimately have "fp \<le> 2 ^ 31" by simp
  with big show ?thesis by simp
qed

section \<open>The copy loops\<close>

lemma unat_inc: "(i :: uint32_t) < n \<Longrightarrow> unat (i + 1) = Suc (unat i)"
  by unat_arith

lemma pop_loop_result:
  "unat got \<le> length dst \<Longrightarrow> i \<le> got \<Longrightarrow>
   pop_loop b ri m dst got i =
     take (unat i) dst @ map (\<lambda>j. b ! unat ((ri + of_nat j) AND m)) [unat i..<unat got]
       @ drop (unat got) dst"
proof (induction b ri m dst got i rule: pop_loop.induct)
  case (1 b ri m dst got i)
  show ?case
  proof (cases "i < got")
    case False
    with 1(3) have "i = got" by simp
    then show ?thesis by (subst pop_loop.simps) simp
  next
    case True
    let ?v = "b ! unat ((ri + i) AND m)"
    have si: "unat (i + 1) = Suc (unat i)" using True by (rule unat_inc)
    have lt: "unat i < unat got" using True by (simp add: word_less_nat_alt)
    have le: "i + 1 \<le> got" using True by (rule inc_le)
    have len: "unat got \<le> length (dst[unat i := ?v])" using 1(2) by simp
    have "pop_loop b ri m dst got i = pop_loop b ri m (dst[unat i := ?v]) got (i + 1)"
      using True by (subst pop_loop.simps) simp
    also have "\<dots> = take (unat (i + 1)) (dst[unat i := ?v])
        @ map (\<lambda>j. b ! unat ((ri + of_nat j) AND m)) [unat (i + 1)..<unat got]
        @ drop (unat got) (dst[unat i := ?v])"
      by (rule 1(1)[OF True len le])
    also have "take (unat (i + 1)) (dst[unat i := ?v]) = take (unat i) dst @ [?v]"
      using lt 1(2) by (simp add: si take_Suc_conv_app_nth)
    also have "drop (unat got) (dst[unat i := ?v]) = drop (unat got) dst"
      using lt by simp
    also have "(take (unat i) dst @ [?v])
        @ map (\<lambda>j. b ! unat ((ri + of_nat j) AND m)) [unat (i + 1)..<unat got]
        @ drop (unat got) dst
      = take (unat i) dst @ map (\<lambda>j. b ! unat ((ri + of_nat j) AND m)) [unat i..<unat got]
        @ drop (unat got) dst"
      using lt by (simp add: si upt_conv_Cons)
    finally show ?thesis .
  qed
qed

lemma push_loop_length: "length (push_loop b wi m src n i) = length b"
proof (induction b wi m src n i rule: push_loop.induct)
  case (1 b wi m src n i)
  show ?case
  proof (cases "i < n")
    case True
    then have "push_loop b wi m src n i
        = push_loop (b[unat ((wi + i) AND m) := src ! unat i]) wi m src n (i + 1)"
      by (subst push_loop.simps) simp
    with 1[OF True] show ?thesis by simp
  next
    case False
    then show ?thesis by (subst push_loop.simps) simp
  qed
qed

lemma push_loop_other_slots:
  "(\<And>i'. i \<le> i' \<Longrightarrow> i' < n \<Longrightarrow> j \<noteq> unat ((wi + i') AND m)) \<Longrightarrow>
   push_loop b wi m src n i ! j = b ! j"
proof (induction b wi m src n i rule: push_loop.induct)
  case (1 b wi m src n i)
  show ?case
  proof (cases "i < n")
    case False
    then show ?thesis by (subst push_loop.simps) simp
  next
    case True
    have unf: "push_loop b wi m src n i
        = push_loop (b[unat ((wi + i) AND m) := src ! unat i]) wi m src n (i + 1)"
      using True by (subst push_loop.simps) simp
    have here: "j \<noteq> unat ((wi + i) AND m)" using 1(2)[of i] True by simp
    have later: "j \<noteq> unat ((wi + i') AND m)" if "i + 1 \<le> i'" "i' < n" for i'
    proof -
      from True have "i \<le> i + 1" by unat_arith
      with that show ?thesis using 1(2)[of i'] by simp
    qed
    from 1(1)[OF True later] here unf show ?thesis by simp
  qed
qed

section \<open>Push and pop when the two indices are equal\<close>

lemma free_zero_when_equal:
  "((2 ^ k - 1 + 1) - (i - i)) AND (2 ^ k - 1) = (0::uint32_t)"
  by (simp add: pow2_and_pred)

lemma push_equal_indices:
  assumes m: "mask_f f = 2 ^ k - 1" and eq: "w f = r f"
  shows "push f src n = (f\<lparr>w := w f AND mask_f f\<rparr>, 0)"
proof -
  have "((mask_f f + 1) - (w f - r f)) AND mask_f f = 0"
    using m eq by (simp add: pow2_and_pred)
  then show ?thesis
    by (auto simp: push_def Let_def word_gt_0)
qed

lemma pop_equal_indices:
  assumes eq: "w f = r f"
  shows "pop f dst n = (f\<lparr>r := r f AND mask_f f\<rparr>,
           if 0 < n then memset_zero dst 0 (unat n) else dst, 0)"
  using eq by (simp add: pop_def Let_def word_gt_0)

lemma push_fresh:
  assumes "new_FloatFIFO fp = Some f"
  shows "push f src n = (f, 0)"
proof -
  from new_FloatFIFO_shape[OF assms] obtain k
    where f: "f = \<lparr>buf = replicate (2 ^ k) 0, w = 0, r = 0, mask_f = 2 ^ k - 1\<rparr>" by blast
  then have "mask_f f = 2 ^ k - 1" "w f = r f" by simp_all
  from push_equal_indices[OF this] show ?thesis by (simp add: f)
qed

lemma pop_fresh:
  assumes "new_FloatFIFO fp = Some f"
  shows "pop f dst n = (f, if 0 < n then memset_zero dst 0 (unat n) else dst, 0)"
proof -
  from new_FloatFIFO_shape[OF assms] obtain k
    where f: "f = \<lparr>buf = replicate (2 ^ k) 0, w = 0, r = 0, mask_f = 2 ^ k - 1\<rparr>" by blast
  then have "w f = r f" by simp
  from pop_equal_indices[OF this] show ?thesis by (simp add: f)
qed

text \<open>
  C9. When the stored indices are equal, and so on every freshly constructed FIFO, the
  free space \<^verbatim>\<open>((mask + 1) - (wi - ri)) & mask\<close> that \<^verbatim>\<open>push\<close> computes is 0: the call
  copies nothing into the ring, stores \<^verbatim>\<open>(wi + 0) & mask\<close> and returns 0, whatever the
  source array and the count. The mask is the one the constructor computed (no
  operation changes it).
\<close>

theorem push_equal_indices_writes_nothing:
  assumes "new_FloatFIFO fp = Some (f0 :: ('a::zero) FloatFIFO)"
    and "mask_f (f :: 'a FloatFIFO) = mask_f f0"
    and "w f = r f"
  shows "((mask_f f + 1) - (w f - r f)) AND mask_f f = 0
       \<and> snd (push f src n) = 0
       \<and> buf (fst (push f src n)) = buf f
       \<and> fst (push f src n) = f\<lparr>w := w f AND mask_f f\<rparr>
       \<and> push f0 src n = (f0, 0)"
proof -
  from new_FloatFIFO_shape[OF assms(1)] obtain k where "mask_f f0 = 2 ^ k - 1" by auto
  with assms(2) have m: "mask_f f = 2 ^ k - 1" by simp
  have "((mask_f f + 1) - (w f - r f)) AND mask_f f = 0"
    using m assms(3) by (simp add: pow2_and_pred)
  moreover have "push f src n = (f\<lparr>w := w f AND mask_f f\<rparr>, 0)"
    by (rule push_equal_indices[OF m assms(3)])
  moreover have "push f0 src n = (f0, 0)"
    by (rule push_fresh[OF assms(1)])
  ultimately show ?thesis by simp
qed

theorem push_equal_indices_writes_nothing_witness:
  "new_FloatFIFO 8 = Some \<lparr>buf = replicate 8 (0::int), w = 0, r = 0, mask_f = 7\<rparr>
   \<and> push \<lparr>buf = [1, 2, 3, 4, 5, 6, 7, 8 :: int], w = 3, r = 3, mask_f = 7\<rparr> [50, 60] 2
       = (\<lparr>buf = [1, 2, 3, 4, 5, 6, 7, 8], w = 3, r = 3, mask_f = 7\<rparr>, 0)"
proof -
  have c: "new_FloatFIFO 8 = Some \<lparr>buf = replicate 8 (0::int), w = 0, r = 0, mask_f = 7\<rparr>"
    by (simp add: new_FloatFIFO_def ctor_loop.simps)
  from push_equal_indices_writes_nothing
    [OF c, of "\<lparr>buf = [1, 2, 3, 4, 5, 6, 7, 8 :: int], w = 3, r = 3, mask_f = 7\<rparr>" "[50, 60]" 2]
  have "push \<lparr>buf = [1, 2, 3, 4, 5, 6, 7, 8 :: int], w = 3, r = 3, mask_f = 7\<rparr> [50, 60] 2
       = (\<lparr>buf = [1, 2, 3, 4, 5, 6, 7, 8], w = 3, r = 3, mask_f = 7\<rparr>, 0)"
    by (simp add: prod_eq_iff)
  with c show ?thesis by simp
qed

section \<open>Underrun\<close>

text \<open>
  The count \<^verbatim>\<open>pop\<close> takes as available is \<^verbatim>\<open>(wi - ri) & mask\<close>. Whenever the plain
  difference \<open>w - r\<close> is at most \<open>mask\<close>, the two agree.
\<close>

lemma le_pow2_pred_and:
  assumes k: "k \<le> 31" and le: "(x :: uint32_t) \<le> 2 ^ k - 1"
  shows "x AND (2 ^ k - 1) = x"
proof -
  have nz: "(2::uint32_t) ^ k \<noteq> 0"
    using unat_pow2[OF k] by (metis power_not_zero unat_0 zero_neq_numeral)
  from le have "unat x \<le> unat ((2::uint32_t) ^ k - 1)" by (simp add: word_le_nat_alt)
  also have "\<dots> = 2 ^ k - 1" by (simp add: unat_minus_one[OF nz] unat_pow2[OF k])
  finally have "unat x \<le> 2 ^ k - 1" .
  moreover have "(0::nat) < 2 ^ k" by simp
  ultimately have "unat x < 2 ^ k" by arith
  then have "unat x < unat ((2::uint32_t) ^ k)" by (simp add: unat_pow2[OF k])
  then have "x < 2 ^ k" by (simp add: word_less_nat_alt)
  then have "x AND mask k = x" by (rule less_mask_eq)
  then show ?thesis by (simp add: mask_eq_exp_minus_1)
qed

lemma avail_is_difference:
  assumes "new_FloatFIFO fp = Some (f0 :: ('a::zero) FloatFIFO)"
    and "mask_f (f :: 'a FloatFIFO) = mask_f f0"
    and "w f - r f \<le> mask_f f"
  shows "(w f - r f) AND mask_f f = w f - r f"
proof -
  from new_FloatFIFO_shape[OF assms(1)] obtain k where "k \<le> 31" "mask_f f0 = 2 ^ k - 1" by auto
  with assms(2,3) show ?thesis by (simp add: le_pow2_pred_and)
qed

text \<open>
  C4. In any state, with \<open>a\<close> the number of frames \<^verbatim>\<open>pop\<close> finds available, a call
  \<^verbatim>\<open>pop(dst, n)\<close> with \<open>n > a\<close> (and \<open>n\<close> writable slots in \<open>dst\<close>) writes the \<open>a\<close>
  available frames, read from slot \<^verbatim>\<open>ri & mask\<close> onwards, into \<open>dst[0..a)\<close> in order,
  zeroes \<open>dst[a..n)\<close>, leaves the rest of \<open>dst\<close> alone, advances \<open>r\<close> by \<open>a\<close> (masked)
  and returns \<open>a\<close>. With 4 frames available, \<^verbatim>\<open>pop(dst, 10)\<close> gives the 4 values, 6 zeros
  and the count 4.
\<close>

theorem pop_underrun_pads_with_silence:
  assumes "unat n \<le> length dst" and "a = (w f - r f) AND mask_f f" and "a < n"
  shows "pop f dst n =
    (f\<lparr>r := (r f + a) AND mask_f f\<rparr>,
     map (\<lambda>j. buf f ! unat ((r f + of_nat j) AND mask_f f)) [0..<unat a]
       @ replicate (unat n - unat a) 0 @ drop (unat n) dst,
     a)"
proof -
  let ?real = "map (\<lambda>j. buf f ! unat ((r f + of_nat j) AND mask_f f)) [0..<unat a]"
  have avail: "(w f - r f) AND mask_f f = a" using assms(2) by simp
  from assms(3) have nle: "\<not> n \<le> a" by (auto dest: leD)
  from assms(3) have an: "unat a \<le> unat n" by (simp add: word_less_nat_alt)
  with assms(1) have len: "unat a \<le> length dst" by simp
  have loop: "pop_loop (buf f) (r f) (mask_f f) dst a 0 = ?real @ drop (unat a) dst"
    using pop_loop_result[OF len, of 0 "buf f" "r f" "mask_f f"] by simp
  have sub: "unat (n - a) = unat n - unat a"
    using nle by (simp add: unat_sub)
  have lr: "length ?real = unat a" by simp
  have pad: "memset_zero (?real @ drop (unat a) dst) (unat a) (unat (n - a))
      = ?real @ replicate (unat n - unat a) 0 @ drop (unat n) dst"
    unfolding memset_zero_def sub using an len lr by simp
  have "pop f dst n =
      (f\<lparr>r := (r f + a) AND mask_f f\<rparr>,
       memset_zero (pop_loop (buf f) (r f) (mask_f f) dst a 0) (unat a) (unat (n - a)), a)"
    unfolding pop_def Let_def avail using nle assms(3) by simp
  then show ?thesis unfolding loop pad .
qed

theorem pop_underrun_pads_with_silence_witness:
  "pop \<lparr>buf = [1, 2, 3, 4, 5, 6, 7, 8 :: int], w = 4, r = 0, mask_f = 7\<rparr> (replicate 10 9) 10
     = (\<lparr>buf = [1, 2, 3, 4, 5, 6, 7, 8], w = 4, r = 4, mask_f = 7\<rparr>,
        [1, 2, 3, 4] @ replicate 6 0, 4)"
proof -
  let ?f = "\<lparr>buf = [1, 2, 3, 4, 5, 6, 7, 8 :: int], w = 4, r = 0, mask_f = 7\<rparr>"
  have real: "map (\<lambda>j. [1, 2, 3, 4, 5, 6, 7, 8 :: int] ! unat ((of_nat j :: uint32_t) AND 7)) [0..<4]
      = [1, 2, 3, 4]"
    by (simp add: upt_conv_Cons)
  have h1: "unat (10 :: uint32_t) \<le> length (replicate 10 (9::int))" by simp
  have h2: "(4 :: uint32_t) = (w ?f - r ?f) AND mask_f ?f" by simp
  have h3: "(4 :: uint32_t) < 10" by simp
  from pop_underrun_pads_with_silence[OF h1 h2 h3] show ?thesis
    by (simp add: real)
qed

section \<open>What push and pop leave alone\<close>

text \<open>
  C10. \<^verbatim>\<open>push\<close> changes only \<open>buf\<close> and \<open>w\<close>: \<open>r\<close> is as before, the ring keeps its length,
  and every slot that is not one of the slots \<^verbatim>\<open>(wi + i) & mask\<close>, \<open>i\<close> below the returned
  count, keeps its sample. \<^verbatim>\<open>pop\<close> changes only \<open>r\<close> (and the caller's \<open>dst\<close>): \<open>w\<close> and
  the ring are as before.
\<close>

theorem push_pop_frame:
  "fst (push f src n) = f\<lparr>buf := buf (fst (push f src n)), w := w (fst (push f src n))\<rparr>
   \<and> r (fst (push f src n)) = r f
   \<and> length (buf (fst (push f src n))) = length (buf f)
   \<and> (\<forall>j. (\<forall>i. i < snd (push f src n) \<longrightarrow> j \<noteq> unat ((w f + i) AND mask_f f))
          \<longrightarrow> buf (fst (push f src n)) ! j = buf f ! j)
   \<and> fst (pop f dst n) = f\<lparr>r := r (fst (pop f dst n))\<rparr>
   \<and> w (fst (pop f dst n)) = w f
   \<and> buf (fst (pop f dst n)) = buf f"
proof -
  define k where "k = snd (push f src n)"
  have pbuf: "buf (fst (push f src n)) = push_loop (buf f) (w f) (mask_f f) src k 0"
    unfolding k_def push_def Let_def by simp
  have slots: "buf (fst (push f src n)) ! j = buf f ! j"
    if other: "\<forall>i. i < snd (push f src n) \<longrightarrow> j \<noteq> unat ((w f + i) AND mask_f f)" for j
  proof -
    have "push_loop (buf f) (w f) (mask_f f) src k 0 ! j = buf f ! j"
    proof (rule push_loop_other_slots)
      fix i' assume "i' < k"
      with other show "j \<noteq> unat ((w f + i') AND mask_f f)"
        unfolding k_def by blast
    qed
    with pbuf show ?thesis by simp
  qed
  have p1: "fst (push f src n) = f\<lparr>buf := buf (fst (push f src n)), w := w (fst (push f src n))\<rparr>"
    unfolding push_def Let_def by simp
  have p2: "r (fst (push f src n)) = r f"
    unfolding push_def Let_def by simp
  have p3: "length (buf (fst (push f src n))) = length (buf f)"
    unfolding pbuf by (rule push_loop_length)
  have q1: "fst (pop f dst n) = f\<lparr>r := r (fst (pop f dst n))\<rparr>"
    unfolding pop_def Let_def by simp
  have q2: "w (fst (pop f dst n)) = w f"
    unfolding pop_def Let_def by simp
  have q3: "buf (fst (pop f dst n)) = buf f"
    unfolding pop_def Let_def by simp
  from slots have p4: "\<forall>j. (\<forall>i. i < snd (push f src n) \<longrightarrow> j \<noteq> unat ((w f + i) AND mask_f f))
          \<longrightarrow> buf (fst (push f src n)) ! j = buf f ! j"
    by blast
  from p1 p2 p3 p4 q1 q2 q3 show ?thesis by (intro conjI)
qed

theorem push_pop_frame_witness:
  "push \<lparr>buf = [5, 6, 7, 8 :: int], w = 2, r = 0, mask_f = 3\<rparr> [42] 1
       = (\<lparr>buf = [5, 6, 42, 8], w = 3, r = 0, mask_f = 3\<rparr>, 1)
   \<and> buf (fst (push \<lparr>buf = [5, 6, 7, 8 :: int], w = 2, r = 0, mask_f = 3\<rparr> [42] 1)) ! 0 = 5"
proof -
  have p: "push \<lparr>buf = [5, 6, 7, 8 :: int], w = 2, r = 0, mask_f = 3\<rparr> [42] 1
       = (\<lparr>buf = [5, 6, 42, 8], w = 3, r = 0, mask_f = 3\<rparr>, 1)"
    by (simp add: push_def Let_def)
  have h: "\<forall>i. i < snd (push \<lparr>buf = [5, 6, 7, 8 :: int], w = 2, r = 0, mask_f = 3\<rparr> [42] 1)
        \<longrightarrow> 0 \<noteq> unat ((2 + i) AND (3::uint32_t))"
    by (simp add: p word_less_1)
  from push_pop_frame[of "\<lparr>buf = [5, 6, 7, 8 :: int], w = 2, r = 0, mask_f = 3\<rparr>" "[42]" 1]
  have "(\<forall>i. i < snd (push \<lparr>buf = [5, 6, 7, 8 :: int], w = 2, r = 0, mask_f = 3\<rparr> [42] 1)
          \<longrightarrow> 0 \<noteq> unat ((w \<lparr>buf = [5, 6, 7, 8 :: int], w = 2, r = 0, mask_f = 3\<rparr> + i)
                 AND mask_f \<lparr>buf = [5, 6, 7, 8 :: int], w = 2, r = 0, mask_f = 3\<rparr>))
        \<longrightarrow> buf (fst (push \<lparr>buf = [5, 6, 7, 8 :: int], w = 2, r = 0, mask_f = 3\<rparr> [42] 1)) ! 0
          = buf \<lparr>buf = [5, 6, 7, 8 :: int], w = 2, r = 0, mask_f = 3\<rparr> ! 0"
    by blast
  with h have "buf (fst (push \<lparr>buf = [5, 6, 7, 8 :: int], w = 2, r = 0, mask_f = 3\<rparr> [42] 1)) ! 0 = 5"
    by simp
  with p show ?thesis by blast
qed

section \<open>The documented scenarios on a fresh FIFO\<close>

text \<open>
  C1. On a fresh FIFO of capacity 16 the documented free space \<open>N - (w - r)\<close> is 16, so
  \<^verbatim>\<open>push(src, 3)\<close> should copy 3 frames, advance \<open>w\<close> to 3 and return 3. The code masks
  the free space with \<open>mask\<close>, gets 0, copies nothing, leaves \<open>w\<close> at 0 and returns 0.
\<close>

theorem push_fresh_16_accepts_nothing:
  "new_FloatFIFO 16 = Some \<lparr>buf = replicate 16 (0::int), w = 0, r = 0, mask_f = 15\<rparr>
   \<and> (15 + 1) - ((0::uint32_t) - 0) = 16
   \<and> push \<lparr>buf = replicate 16 (0::int), w = 0, r = 0, mask_f = 15\<rparr> [7, 8, 9] 3
       = (\<lparr>buf = replicate 16 0, w = 0, r = 0, mask_f = 15\<rparr>, 0)"
  by (simp add: new_FloatFIFO_def ctor_loop.simps push_def Let_def)

text \<open>
  C2. Capacity 8, five distinct values pushed, five popped: the push returns 0 and stores
  nothing, and the pop returns 0 real frames and fills the destination with five zeros,
  not the five values.
\<close>

theorem round_trip_8_returns_silence:
  "new_FloatFIFO 8 = Some \<lparr>buf = replicate 8 (0::int), w = 0, r = 0, mask_f = 7\<rparr>
   \<and> push \<lparr>buf = replicate 8 (0::int), w = 0, r = 0, mask_f = 7\<rparr> [10, 20, 30, 40, 50] 5
       = (\<lparr>buf = replicate 8 0, w = 0, r = 0, mask_f = 7\<rparr>, 0)
   \<and> pop \<lparr>buf = replicate 8 (0::int), w = 0, r = 0, mask_f = 7\<rparr> [9, 9, 9, 9, 9] 5
       = (\<lparr>buf = replicate 8 0, w = 0, r = 0, mask_f = 7\<rparr>, replicate 5 0, 0)"
  by (simp add: new_FloatFIFO_def ctor_loop.simps push_def pop_def Let_def memset_zero_def)

text \<open>
  C3. Capacity 4: the first push of 3 frames returns 0, not 3; the second push of 3 frames
  returns 0, not 1; the FIFO is then as empty as when it was built, not full.
\<close>

theorem overflow_4_first_push_returns_zero:
  "new_FloatFIFO 4 = Some \<lparr>buf = replicate 4 (0::int), w = 0, r = 0, mask_f = 3\<rparr>
   \<and> push \<lparr>buf = replicate 4 (0::int), w = 0, r = 0, mask_f = 3\<rparr> [1, 2, 3] 3
       = (\<lparr>buf = replicate 4 0, w = 0, r = 0, mask_f = 3\<rparr>, 0)
   \<and> push \<lparr>buf = replicate 4 (0::int), w = 0, r = 0, mask_f = 3\<rparr> [4, 5, 6] 3
       = (\<lparr>buf = replicate 4 0, w = 0, r = 0, mask_f = 3\<rparr>, 0)"
  by (simp add: new_FloatFIFO_def ctor_loop.simps push_def Let_def)

section \<open>Runs from a fresh FIFO\<close>

text \<open>
  On a fresh FIFO no push accepts a frame and no pop returns one: every callback leaves the
  session as it was.
\<close>

lemma callback_step_fresh:
  assumes "new_FloatFIFO fp = Some f0"
  shows "callback_step \<lparr>fifo = f0, accepted = [], returned = []\<rparr> c
       = \<lparr>fifo = f0, accepted = [], returned = []\<rparr>"
proof (cases c)
  case (InputCallback src n)
  then show ?thesis by (simp add: push_fresh[OF assms])
next
  case (RenderCallback dst n)
  then show ?thesis by (simp add: pop_fresh[OF assms])
qed

lemma run_fresh:
  assumes "new_FloatFIFO fp = Some f0"
  shows "run f0 cs = \<lparr>fifo = f0, accepted = [], returned = []\<rparr>"
  unfolding run_def
  by (induction cs) (simp_all add: callback_step_fresh[OF assms])

lemma unat_pow2_pred: "k \<le> 31 \<Longrightarrow> unat ((2::uint32_t) ^ k - 1) = 2 ^ k - 1"
proof -
  assume k: "k \<le> 31"
  have nz: "(2::uint32_t) ^ k \<noteq> 0"
    using unat_pow2[OF k] by (metis power_not_zero unat_0 zero_neq_numeral)
  show ?thesis by (simp add: unat_minus_one[OF nz] unat_pow2[OF k])
qed

text \<open>
  C5. In every state reached from a freshly constructed FIFO by any sequence of pushes
  and pops, the wrap-around difference \<open>w - r\<close> is at most the capacity \<open>N = mask + 1\<close>
  (the length of the ring), and it is the number of frames available to read: it is the
  count \<^verbatim>\<open>(wi - ri) & mask\<close> that \<^verbatim>\<open>pop\<close> computes, and a pop of \<open>n\<close> frames returns
  \<open>min n (w - r)\<close> of them.
\<close>

theorem available_within_capacity:
  assumes "new_FloatFIFO fp = Some f0" and "f = fifo (run f0 cs)"
  shows "unat (w f - r f) \<le> unat (mask_f f) + 1
       \<and> length (buf f) = unat (mask_f f) + 1
       \<and> (w f - r f) AND mask_f f = w f - r f
       \<and> snd (snd (pop f dst n)) = min n (w f - r f)"
proof -
  from assms have f: "f = f0" by (simp add: run_fresh[OF assms(1)])
  from new_FloatFIFO_shape[OF assms(1)] obtain k where k: "k \<le> 31"
    and f0: "f0 = \<lparr>buf = replicate (2 ^ k) 0, w = 0, r = 0, mask_f = 2 ^ k - 1\<rparr>" by blast
  have "length (buf f) = unat (mask_f f) + 1"
    using k by (simp add: f f0 unat_pow2_pred)
  moreover have "w f - r f = 0" by (simp add: f f0)
  moreover have "snd (snd (pop f dst n)) = 0"
    by (simp add: f pop_fresh[OF assms(1)])
  ultimately show ?thesis by simp
qed

theorem available_within_capacity_witness:
  "unat (w (fifo (run \<lparr>buf = replicate 4 (0::int), w = 0, r = 0, mask_f = 3\<rparr>
        [InputCallback [1, 2, 3] 3, RenderCallback [9, 9] 2, InputCallback [4, 5, 6] 3]))
      - r (fifo (run \<lparr>buf = replicate 4 (0::int), w = 0, r = 0, mask_f = 3\<rparr>
        [InputCallback [1, 2, 3] 3, RenderCallback [9, 9] 2, InputCallback [4, 5, 6] 3])))
   \<le> unat (mask_f (fifo (run \<lparr>buf = replicate 4 (0::int), w = 0, r = 0, mask_f = 3\<rparr>
        [InputCallback [1, 2, 3] 3, RenderCallback [9, 9] 2, InputCallback [4, 5, 6] 3]))) + 1"
proof -
  have c: "new_FloatFIFO 4 = Some \<lparr>buf = replicate 4 (0::int), w = 0, r = 0, mask_f = 3\<rparr>"
    by (simp add: new_FloatFIFO_def ctor_loop.simps)
  show ?thesis by (rule available_within_capacity[OF c refl, THEN conjunct1])
qed

text \<open>
  C6. For every sequence of pushes and pops on a freshly constructed FIFO, the real frames
  returned by the pops, in the order returned, are a prefix of the frames accepted by the
  pushes, in the order accepted. A push accepts the first \<open>k\<close> samples of its source and
  drops the rest; a pop asked for \<open>n\<close> frames (with \<open>n\<close> writable slots) fills them with
  the frames it returns followed by zeros only.
\<close>

theorem returned_prefix_of_accepted:
  assumes "new_FloatFIFO fp = Some f0" and "s = run f0 cs"
  shows "prefix (returned s) (accepted s)
       \<and> (unat n \<le> length dst \<longrightarrow>
            take (unat n) (fst (snd (pop (fifo s) dst n)))
              = take (unat (snd (snd (pop (fifo s) dst n)))) (fst (snd (pop (fifo s) dst n)))
                @ replicate (unat n - unat (snd (snd (pop (fifo s) dst n)))) 0)"
proof -
  from assms have s: "s = \<lparr>fifo = f0, accepted = [], returned = []\<rparr>"
    by (simp add: run_fresh[OF assms(1)])
  have "take (unat n) (fst (snd (pop f0 dst n))) = replicate (unat n) 0"
    if "unat n \<le> length dst"
    using that by (simp add: pop_fresh[OF assms(1)] memset_zero_def unat_gt_0 word_gt_0)
  then show ?thesis
    by (simp add: s pop_fresh[OF assms(1)])
qed

theorem returned_prefix_of_accepted_witness:
  "prefix
     (returned (run \<lparr>buf = replicate 8 (0::int), w = 0, r = 0, mask_f = 7\<rparr>
        [InputCallback [1, 2, 3] 3, RenderCallback [9, 9] 2]))
     (accepted (run \<lparr>buf = replicate 8 (0::int), w = 0, r = 0, mask_f = 7\<rparr>
        [InputCallback [1, 2, 3] 3, RenderCallback [9, 9] 2]))
   \<and> take 2 (fst (snd (pop (fifo (run \<lparr>buf = replicate 8 (0::int), w = 0, r = 0, mask_f = 7\<rparr>
        [InputCallback [1, 2, 3] 3, RenderCallback [9, 9] 2])) [9, 9, 9] 2)))
     = replicate 2 0"
proof -
  have c: "new_FloatFIFO 8 = Some \<lparr>buf = replicate 8 (0::int), w = 0, r = 0, mask_f = 7\<rparr>"
    by (simp add: new_FloatFIFO_def ctor_loop.simps)
  have e: "run \<lparr>buf = replicate 8 (0::int), w = 0, r = 0, mask_f = 7\<rparr>
        [InputCallback [1, 2, 3] 3, RenderCallback [9, 9] 2]
      = \<lparr>fifo = \<lparr>buf = replicate 8 0, w = 0, r = 0, mask_f = 7\<rparr>, accepted = [], returned = []\<rparr>"
    by (simp add: run_def push_def pop_def Let_def memset_zero_def)
  have p: "pop \<lparr>buf = replicate 8 (0::int), w = 0, r = 0, mask_f = 7\<rparr> [9, 9, 9] 2
      = (\<lparr>buf = replicate 8 0, w = 0, r = 0, mask_f = 7\<rparr>, replicate 2 0 @ [9], 0)"
    by (simp add: pop_def Let_def memset_zero_def)
  have h: "unat (2 :: uint32_t) \<le> length [9, 9, 9 :: int]" by simp
  from returned_prefix_of_accepted[OF c refl, where n = 2 and dst = "[9, 9, 9]"] h
  show ?thesis by (simp add: e p)
qed

text \<open>
  C7. For every sequence of pushes and pops on a freshly constructed FIFO (any requested
  size the constructor returns for, rounded up to a power of two), the number of real
  frames returned by the pops is the number of frames accepted by the pushes minus the
  \<open>w - r\<close> frames still unread.
\<close>

theorem frames_returned_accounting:
  assumes "new_FloatFIFO fp = Some f0" and "s = run f0 cs"
  shows "length (returned s) + unat (w (fifo s) - r (fifo s)) = length (accepted s)"
proof -
  from new_FloatFIFO_shape[OF assms(1)] obtain k where
    f0: "f0 = \<lparr>buf = replicate (2 ^ k) 0, w = 0, r = 0, mask_f = 2 ^ k - 1\<rparr>" by blast
  from assms(2) have "s = \<lparr>fifo = f0, accepted = [], returned = []\<rparr>"
    by (simp add: run_fresh[OF assms(1)])
  then show ?thesis by (simp add: f0)
qed

theorem frames_returned_accounting_witness:
  "length (returned (run \<lparr>buf = replicate 2 (0::int), w = 0, r = 0, mask_f = 1\<rparr>
        [RenderCallback [9] 1, InputCallback [1, 2] 2, RenderCallback [9, 9] 2]))
   + unat (w (fifo (run \<lparr>buf = replicate 2 (0::int), w = 0, r = 0, mask_f = 1\<rparr>
        [RenderCallback [9] 1, InputCallback [1, 2] 2, RenderCallback [9, 9] 2]))
      - r (fifo (run \<lparr>buf = replicate 2 (0::int), w = 0, r = 0, mask_f = 1\<rparr>
        [RenderCallback [9] 1, InputCallback [1, 2] 2, RenderCallback [9, 9] 2])))
   = length (accepted (run \<lparr>buf = replicate 2 (0::int), w = 0, r = 0, mask_f = 1\<rparr>
        [RenderCallback [9] 1, InputCallback [1, 2] 2, RenderCallback [9, 9] 2]))"
proof -
  have c: "new_FloatFIFO 2 = Some \<lparr>buf = replicate 2 (0::int), w = 0, r = 0, mask_f = 1\<rparr>"
    by (simp add: new_FloatFIFO_def ctor_loop.simps)
  show ?thesis by (rule frames_returned_accounting[OF c refl])
qed

section \<open>Stopping twice\<close>

text \<open>
  C8, as stated: the second of two \<^verbatim>\<open>stop\<close> calls is a no-op. On Android it is not: with
  both streams open the second call asks both streams to stop again.
\<close>

theorem android_second_stop_repeats_requests:
  "stop (stop (\<lparr>inputStream = Some 1, outputStream = Some 2\<rparr>, []))
     \<noteq> stop (\<lparr>inputStream = Some 1, outputStream = Some 2\<rparr>, [])"
  by (simp add: stop_def)

text \<open>
  C8, amended. Neither function can fail (both return \<^verbatim>\<open>void\<close>). On iOS the second
  \<^verbatim>\<open>StopVoiceLoopback\<close> changes nothing and makes no call, and \<^verbatim>\<open>gAudioUnit\<close> is null
  after each call. On Android each \<^verbatim>\<open>stop\<close> leaves the \<^verbatim>\<open>FullDuplex\<close> object as it was
  and sends \<^verbatim>\<open>requestStop\<close> to the input stream and then the output stream, where
  held; two calls send these requests twice.
\<close>

theorem stop_twice:
  "StopVoiceLoopback (StopVoiceLoopback s) = StopVoiceLoopback s
   \<and> gAudioUnit (StopVoiceLoopback s) = None
   \<and> stop (d, calls) =
       (d, calls @ map requestStop
             ((case inputStream d of None \<Rightarrow> [] | Some i \<Rightarrow> [i])
              @ (case outputStream d of None \<Rightarrow> [] | Some out \<Rightarrow> [out])))
   \<and> stop (stop (d, calls)) =
       (d, calls @ map requestStop
             ((case inputStream d of None \<Rightarrow> [] | Some i \<Rightarrow> [i])
              @ (case outputStream d of None \<Rightarrow> [] | Some out \<Rightarrow> [out]))
           @ map requestStop
             ((case inputStream d of None \<Rightarrow> [] | Some i \<Rightarrow> [i])
              @ (case outputStream d of None \<Rightarrow> [] | Some out \<Rightarrow> [out])))"
proof -
  have i1: "StopVoiceLoopback (StopVoiceLoopback s) = StopVoiceLoopback s"
    by (simp add: StopVoiceLoopback_def split: option.splits)
  have i2: "gAudioUnit (StopVoiceLoopback s) = None"
    by (simp add: StopVoiceLoopback_def split: option.splits)
  have a1: "stop (d, calls) =
       (d, calls @ map requestStop
             ((case inputStream d of None \<Rightarrow> [] | Some i \<Rightarrow> [i])
              @ (case outputStream d of None \<Rightarrow> [] | Some out \<Rightarrow> [out])))" for calls
    by (simp add: stop_def split: option.splits)
  have a2: "stop (stop (d, calls)) =
       (d, calls @ map requestStop
             ((case inputStream d of None \<Rightarrow> [] | Some i \<Rightarrow> [i])
              @ (case outputStream d of None \<Rightarrow> [] | Some out \<Rightarrow> [out]))
           @ map requestStop
             ((case inputStream d of None \<Rightarrow> [] | Some i \<Rightarrow> [i])
              @ (case outputStream d of None \<Rightarrow> [] | Some out \<Rightarrow> [out])))"
    by (simp only: a1 append_assoc)
  from i1 i2 a1 a2 show ?thesis by (intro conjI)
qed

end
